theory Spec2Isabelle
  imports Main "HOL-Library.Word"
begin

section \<open>The progress bar of osmium/util/progress_bar.hpp\<close>

text \<open>
  The class \<open>osmium::ProgressBar\<close> is embedded as a record of its six data members and
  one function per member function. \<open>size_t\<close> is taken to be 64 bits wide, so all
  arithmetic on sizes wraps modulo \<open>2 ^ 64\<close>. The stream \<open>std::cerr\<close> is not part of the
  class: it is a parameter of every operation, a function that receives the text of one
  \<open>operator<<\<close> call and the stream state and says whether that insertion threw.
\<close>

type_synonym size_t = "64 word"

record ProgressBar =
  m_max_size :: size_t
  m_done_size :: size_t
  m_current_size :: size_t
  m_prev_percent :: size_t
  m_enable :: bool
  m_do_cleanup :: bool

subsection \<open>The output stream and the ways a call can end\<close>

text \<open>
  One insertion into the stream: \<open>w text io = (threw, io')\<close>. Any behaviour of the
  stream is an instance, also one whose exception mask is set and whose writes fail.
\<close>

type_synonym 'io ostream = "string \<Rightarrow> 'io \<Rightarrow> bool \<times> 'io"

text \<open>A stream that never fails and records every character written to it.\<close>

definition cerr :: "string ostream" where
  "cerr x out = (False, out @ x)"

text \<open>A stream whose every insertion throws and leaves the stream as it was.\<close>

definition cerr_failing :: "string ostream" where
  "cerr_failing x out = (True, out)"

text \<open>
  A call returns, or an exception thrown by the stream leaves it, or it divides by zero
  (undefined behaviour in C++, which no handler catches).
\<close>

datatype outcome = Returned | Thrown | DivByZero

text \<open>A chain of insertions \<open>std::cerr << a << b << c\<close>: the first throw ends it.\<close>

fun insert_all :: "'io ostream \<Rightarrow> string list \<Rightarrow> 'io \<Rightarrow> outcome \<times> 'io" where
  "insert_all w [] io = (Returned, io)"
| "insert_all w (x # xs) io =
     (case w x io of
        (True, io') \<Rightarrow> (Thrown, io')
      | (False, io') \<Rightarrow> insert_all w xs io')"

subsection \<open>The glyph strings\<close>

definition bar :: string where
  "bar = ''======================================================================''"

definition spc :: string where
  "spc = ''                                                                     ''"

definition length_bar :: size_t where
  "length_bar = 70"

text \<open>
  \<open>p + n\<close> for a pointer \<open>p\<close> to a C string, read by \<open>operator<<\<close> up to the
  terminating NUL: the string without its first \<open>n\<close> characters. Defined for
  \<open>n \<le> length p\<close> only; \<open>display\<close> stays inside that range (lemma \<open>display_offsets\<close>).
\<close>

definition cstr_plus :: "string \<Rightarrow> size_t \<Rightarrow> string" where
  "cstr_plus p n = drop (unat n) p"

subsection \<open>Formatting a size_t in decimal\<close>

text \<open>
  \<open>std::cerr << percent\<close> with the stream's default format flags: the decimal digits,
  no padding and no sign.
\<close>

definition digit_char :: "nat \<Rightarrow> char" where
  "digit_char d = ''0123456789'' ! d"

fun dec_nat :: "nat \<Rightarrow> string" where
  "dec_nat n = (if n < 10 then [digit_char n] else dec_nat (n div 10) @ [digit_char (n mod 10)])"

declare dec_nat.simps [simp del]

definition dec :: "size_t \<Rightarrow> string" where
  "dec n = dec_nat (unat n)"

subsection \<open>The fill count: \<open>size_t(percent * (length / 100.0))\<close>\<close>

text \<open>
  \<open>double\<close> is IEEE 754 binary64 with the default rounding, to nearest with ties to
  even. Every value of this computation is a non-negative multiple of \<open>2 ^ -53\<close>, so a
  double is represented by the natural number of such units it holds.
\<close>

fun bitlen :: "nat \<Rightarrow> nat" where
  "bitlen n = (if n = 0 then 0 else Suc (bitlen (n div 2)))"

declare bitlen.simps [simp del]

text \<open>The nearest integer to \<open>n / d\<close>, ties to even.\<close>

definition rne_div :: "nat \<Rightarrow> nat \<Rightarrow> nat" where
  "rne_div n d =
     (let q = n div d; r = n mod d
      in if 2 * r < d \<or> (2 * r = d \<and> even q) then q else q + 1)"

text \<open>Rounding a natural number to 53 significant bits.\<close>

definition round53 :: "nat \<Rightarrow> nat" where
  "round53 n = (let e = bitlen n - 53 in rne_div n (2 ^ e) * 2 ^ e)"

text \<open>
  The constant \<open>length / 100.0\<close>, that is \<open>70.0 / 100.0\<close> rounded: it lies in
  \<open>[1/2, 1)\<close>, where doubles are \<open>2 ^ -53\<close> apart.
\<close>

definition length_div_100 :: nat where
  "length_div_100 = rne_div (70 * 2 ^ 53) 100"

text \<open>
  \<open>percent\<close> converted to double (rounded when above \<open>2 ^ 53\<close>), the product rounded,
  and the conversion back to \<open>size_t\<close>, which truncates. The truncated value is below
  \<open>2 ^ 64\<close> (lemma \<open>fill_count_in_range\<close>), so the conversion is defined.
\<close>

definition fill_count :: "size_t \<Rightarrow> size_t" where
  "fill_count percent =
     word_of_nat (round53 (round53 (unat percent) * length_div_100) div 2 ^ 53)"

subsection \<open>display\<close>

text \<open>
  The insertions that \<open>display\<close> makes for a percentage that differs from the previous
  one (lines 86 to 100 of the source), in order.
\<close>

definition display_items :: "size_t \<Rightarrow> string list" where
  "display_items percent =
     (let num = fill_count percent
      in [''['']
         @ (if num \<ge> length_bar then [bar]
            else [cstr_plus bar (length_bar - num), ''>'', cstr_plus spc num])
         @ [''] '']
         @ (if percent < 10 then ['' ''] else [])
         @ (if percent < 100 then ['' ''] else [])
         @ [dec percent, ''% '' @ [CHR 0x0D]])"

text \<open>Line 80: the percentage, in \<open>size_t\<close> arithmetic. The caller checks the divisor.\<close>

definition percent_of :: "ProgressBar \<Rightarrow> size_t" where
  "percent_of pb = 100 * (m_done_size pb + m_current_size pb) div m_max_size pb"

definition display :: "'io ostream \<Rightarrow> ProgressBar \<times> 'io \<Rightarrow> outcome \<times> ProgressBar \<times> 'io" where
  "display w s =
     (case s of (pb, io) \<Rightarrow>
        if m_max_size pb = 0 then (DivByZero, pb, io)
        else
          let percent = percent_of pb
          in if m_prev_percent pb = percent then (Returned, pb, io)
             else
               let pb' = pb\<lparr>m_prev_percent := percent\<rparr>
               in case insert_all w (display_items percent) io of
                    (r, io') \<Rightarrow> (r, pb', io'))"

subsection \<open>The public member functions\<close>

definition ProgressBar :: "size_t \<Rightarrow> bool \<Rightarrow> ProgressBar" where
  "ProgressBar max_size enable =
     \<lparr>m_max_size = max_size, m_done_size = 0, m_current_size = 0,
      m_prev_percent = 100 + 1, m_enable = (max_size > 0 \<and> enable), m_do_cleanup = True\<rparr>"

definition update :: "'io ostream \<Rightarrow> size_t \<Rightarrow> ProgressBar \<times> 'io \<Rightarrow> outcome \<times> ProgressBar \<times> 'io" where
  "update w current_size s =
     (case s of (pb, io) \<Rightarrow>
        if \<not> m_enable pb then (Returned, pb, io)
        else display w (pb\<lparr>m_current_size := current_size\<rparr>, io))"

definition file_done :: "'io ostream \<Rightarrow> size_t \<Rightarrow> ProgressBar \<times> 'io \<Rightarrow> outcome \<times> ProgressBar \<times> 'io" where
  "file_done w file_size s =
     (case s of (pb, io) \<Rightarrow>
        if m_enable pb
        then display w (pb\<lparr>m_done_size := m_done_size pb + file_size, m_current_size := 0\<rparr>, io)
        else (Returned, pb, io))"

text \<open>The member function \<open>done\<close>; the name \<open>done\<close> is taken in Isabelle.\<close>

definition done_bar :: "'io ostream \<Rightarrow> ProgressBar \<times> 'io \<Rightarrow> outcome \<times> ProgressBar \<times> 'io" where
  "done_bar w s =
     (case s of (pb, io) \<Rightarrow>
        let pb1 = pb\<lparr>m_do_cleanup := False\<rparr>
        in if m_enable pb1
           then (case display w (pb1\<lparr>m_done_size := m_max_size pb1, m_current_size := 0\<rparr>, io) of
                   (Returned, pb2, io2) \<Rightarrow>
                     (case insert_all w [[CHR 0x0A]] io2 of (r, io3) \<Rightarrow> (r, pb2, io3))
                 | (r, s2) \<Rightarrow> (r, s2))
           else (Returned, pb1, io))"

definition remove :: "'io ostream \<Rightarrow> ProgressBar \<times> 'io \<Rightarrow> outcome \<times> ProgressBar \<times> 'io" where
  "remove w s =
     (case s of (pb, io) \<Rightarrow>
        if m_enable pb
        then (case insert_all w [spc, ''         '' @ [CHR 0x0D]] io of
                (Returned, io') \<Rightarrow> (Returned, pb\<lparr>m_prev_percent := 100 + 1\<rparr>, io')
              | (r, io') \<Rightarrow> (r, pb, io'))
        else (Returned, pb, io))"

text \<open>
  The destructor. Its \<open>catch (...)\<close> swallows an exception of \<open>done\<close>; the state
  reached when the exception was thrown stays as it is.
\<close>

definition destructor :: "'io ostream \<Rightarrow> ProgressBar \<times> 'io \<Rightarrow> outcome \<times> ProgressBar \<times> 'io" where
  "destructor w s =
     (case s of (pb, io) \<Rightarrow>
        if m_do_cleanup pb
        then (case done_bar w s of
                (Thrown, s') \<Rightarrow> (Returned, s')
              | (r, s') \<Rightarrow> (r, s'))
        else (Returned, pb, io))"

subsection \<open>Sequences of calls\<close>

datatype call = Update size_t | FileDone size_t | Done | Remove

fun step :: "'io ostream \<Rightarrow> call \<Rightarrow> ProgressBar \<times> 'io \<Rightarrow> outcome \<times> ProgressBar \<times> 'io" where
  "step w (Update n) s = update w n s"
| "step w (FileDone n) s = file_done w n s"
| "step w Done s = done_bar w s"
| "step w Remove s = remove w s"

text \<open>The calls are made in order; a call that does not return ends the sequence.\<close>

fun run :: "'io ostream \<Rightarrow> call list \<Rightarrow> ProgressBar \<times> 'io \<Rightarrow> outcome \<times> ProgressBar \<times> 'io" where
  "run w [] s = (Returned, s)"
| "run w (c # cs) s =
     (case step w c s of
        (Returned, s') \<Rightarrow> run w cs s'
      | (r, s') \<Rightarrow> (r, s'))"

text \<open>The invariant of the constructor: an enabled renderer has a non-zero size.\<close>

definition sized :: "ProgressBar \<Rightarrow> bool" where
  "sized pb = (m_enable pb \<longrightarrow> m_max_size pb \<noteq> 0)"

text \<open>
  A stream observed: \<open>logged w\<close> behaves as \<open>w\<close> and keeps, beside the state of \<open>w\<close>,
  the list of the insertions made so far, \<open>True\<close> for one that threw.
\<close>

definition logged :: "'io ostream \<Rightarrow> ('io \<times> bool list) ostream" where
  "logged w x s = (case s of (io, l) \<Rightarrow> (case w x io of (t, io') \<Rightarrow> (t, io', l @ [t])))"

section \<open>Basic facts\<close>

subsection \<open>The glyph strings and the pointer offsets\<close>

lemma bar_replicate: "bar = replicate 70 (CHR ''='')"
  by (simp add: bar_def numeral_eq_Suc)

lemma spc_replicate: "spc = replicate 69 (CHR '' '')"
  by (simp add: spc_def numeral_eq_Suc)

lemma cstr_plus_bar:
  assumes "num < length_bar"
  shows "cstr_plus bar (length_bar - num) = replicate (unat num) (CHR ''='')"
proof -
  from assms have n: "unat num < 70"
    by (simp add: length_bar_def word_less_nat_alt)
  from assms have "unat (length_bar - num) = 70 - unat num"
    by (simp add: length_bar_def unat_sub word_less_nat_alt word_le_nat_alt)
  with n show ?thesis
    by (simp add: cstr_plus_def bar_replicate)
qed

lemma cstr_plus_spc: "cstr_plus spc num = replicate (69 - unat num) (CHR '' '')"
  by (simp add: cstr_plus_def spc_replicate)

lemma display_offsets:
  assumes "\<not> num \<ge> length_bar"
  shows "unat (length_bar - num) \<le> length bar \<and> unat num \<le> length spc"
proof -
  from assms have n: "unat num < 70"
    by (simp add: length_bar_def word_less_nat_alt word_le_nat_alt)
  from assms have "unat (length_bar - num) = 70 - unat num"
    by (simp add: length_bar_def unat_sub word_less_nat_alt word_le_nat_alt)
  with n show ?thesis
    by (simp add: bar_replicate spc_replicate)
qed

subsection \<open>The fill count stays in range\<close>

lemma bitlen_le:
  assumes "n < 2 ^ k"
  shows "bitlen n \<le> k"
  using assms
proof (induction k arbitrary: n)
  case 0
  then show ?case by (simp add: bitlen.simps)
next
  case (Suc k)
  show ?case
  proof (cases "n = 0")
    case True
    then show ?thesis by (simp add: bitlen.simps)
  next
    case False
    from Suc.prems have "n div 2 < 2 ^ k"
      by simp
    then have "bitlen (n div 2) \<le> k"
      by (rule Suc.IH)
    with False show ?thesis
      by (simp add: bitlen.simps [of n])
  qed
qed

lemma rne_div_le: "rne_div n d \<le> n div d + 1"
  by (simp add: rne_div_def Let_def)

lemma round53_le: "round53 n \<le> n + 2 ^ (bitlen n - 53)"
proof -
  let ?d = "2 ^ (bitlen n - 53) :: nat"
  have "rne_div n ?d * ?d \<le> (n div ?d + 1) * ?d"
    by (rule mult_le_mono1) (rule rne_div_le)
  also have "\<dots> = n div ?d * ?d + ?d"
    by (simp add: algebra_simps)
  also have "\<dots> \<le> n + ?d"
    by simp
  finally show ?thesis
    by (simp add: round53_def Let_def)
qed

lemma length_div_100_value: "length_div_100 = 6305039478318694"
  by (simp add: length_div_100_def rne_div_def)

lemma fill_count_in_range:
  "round53 (round53 (unat (percent :: size_t)) * length_div_100) div 2 ^ 53 < 2 ^ 64"
proof -
  let ?n = "unat percent"
  have n: "?n < 2 ^ 64"
    using unsigned_less [of percent, where 'a = nat] by simp
  then have "bitlen ?n \<le> 64"
    by (rule bitlen_le)
  then have "(2 :: nat) ^ (bitlen ?n - 53) \<le> 2 ^ 11"
    by (intro power_increasing) simp_all
  with round53_le [of ?n] n have a: "round53 ?n \<le> 2 ^ 64 + 2 ^ 11"
    by simp
  let ?N = "round53 ?n * length_div_100"
  from a have "?N \<le> (2 ^ 64 + 2 ^ 11) * length_div_100"
    by (rule mult_le_mono1)
  then have N: "?N \<le> (2 ^ 64 + 2 ^ 11) * 6305039478318694"
    by (simp only: length_div_100_value)
  then have "?N < 2 ^ 117"
    by simp
  then have "bitlen ?N \<le> 117"
    by (rule bitlen_le)
  then have "(2 :: nat) ^ (bitlen ?N - 53) \<le> 2 ^ 64"
    by (intro power_increasing) simp_all
  with round53_le [of ?N] N have "round53 ?N \<le> (2 ^ 64 + 2 ^ 11) * 6305039478318694 + 2 ^ 64"
    by linarith
  also have "\<dots> < 2 ^ 64 * 2 ^ 53"
    by simp
  finally show ?thesis
    by (simp add: less_mult_imp_div_less)
qed

subsection \<open>Writing to a stream that never fails\<close>

lemma insert_all_cerr: "insert_all cerr xs out = (Returned, out @ concat xs)"
  by (induction xs arbitrary: out) (simp_all add: cerr_def)

lemma display_cerr:
  assumes "m_max_size pb \<noteq> 0"
  shows "display cerr (pb, out) =
    (if m_prev_percent pb = percent_of pb then (Returned, pb, out)
     else (Returned, pb\<lparr>m_prev_percent := percent_of pb\<rparr>,
           out @ concat (display_items (percent_of pb))))"
  using assms by (simp add: display_def insert_all_cerr Let_def)

lemma fill_count_50: "fill_count 50 = 35"
  by (simp add: fill_count_def round53_def length_div_100_def rne_div_def bitlen.simps)

lemma dec_50: "dec 50 = ''50''"
  by (simp add: dec_def dec_nat.simps digit_char_def)

lemma display_items_50:
  "concat (display_items 50) =
     ''[===================================>                                  ]  50% '' @ [CHR 0x0D]"
  by (simp add: display_items_def fill_count_50 dec_50 length_bar_def cstr_plus_def bar_def spc_def)

lemma display_items_text:
  "concat (display_items percent) =
     ''['' @
     (if unat (fill_count percent) < 70
      then replicate (unat (fill_count percent)) (CHR ''='') @ ''>'' @
           replicate (69 - unat (fill_count percent)) (CHR '' '')
      else replicate 70 (CHR ''='')) @
     ''] '' @ (if percent < 10 then '' '' else []) @ (if percent < 100 then '' '' else []) @
     dec percent @ ''% '' @ [CHR 0x0D]"
proof (cases "fill_count percent \<ge> length_bar")
  case True
  then have "\<not> unat (fill_count percent) < 70"
    by (simp add: length_bar_def word_le_nat_alt)
  with True show ?thesis
    by (simp add: display_items_def Let_def bar_replicate)
next
  case False
  then have lt: "fill_count percent < length_bar"
    by simp
  then have "unat (fill_count percent) < 70"
    by (simp add: length_bar_def word_less_nat_alt)
  with False show ?thesis
    by (simp add: display_items_def Let_def cstr_plus_bar [OF lt] cstr_plus_spc)
qed

subsection \<open>The percentage without overflow\<close>

lemma percent_of_nat:
  assumes "100 * (unat (m_done_size pb) + unat (m_current_size pb)) < 2 ^ 64"
  shows "unat (percent_of pb) =
         100 * (unat (m_done_size pb) + unat (m_current_size pb)) div unat (m_max_size pb)"
proof -
  have s: "unat (m_done_size pb + m_current_size pb) =
           unat (m_done_size pb) + unat (m_current_size pb)"
    by (rule unat_add_lem [THEN iffD1]) (use assms in simp)
  have "unat (100 * (m_done_size pb + m_current_size pb)) =
        unat (100 :: size_t) * unat (m_done_size pb + m_current_size pb)"
    by (rule unat_mult_lem [THEN iffD1]) (use assms s in simp)
  with s show ?thesis
    by (simp add: percent_of_def unat_div del: distrib_left_numeral)
qed

subsection \<open>Frame facts, disabled renderers and the division\<close>

lemma display_fields:
  assumes "display w (pb, io) = (r, pb', io')"
  shows "m_max_size pb' = m_max_size pb \<and> m_done_size pb' = m_done_size pb \<and>
         m_current_size pb' = m_current_size pb \<and> m_enable pb' = m_enable pb \<and>
         m_do_cleanup pb' = m_do_cleanup pb"
  using assms by (auto simp: display_def Let_def split: if_splits prod.splits)

lemma insert_all_not_DivByZero: "fst (insert_all w xs io) \<noteq> DivByZero"
  by (induction xs arbitrary: io) (auto split: prod.splits bool.splits)

lemma display_not_DivByZero:
  assumes "m_max_size pb \<noteq> 0"
  shows "fst (display w (pb, io)) \<noteq> DivByZero"
  using assms insert_all_not_DivByZero [of w "display_items (percent_of pb)" io]
  by (auto simp: display_def Let_def split: prod.splits)

lemma step_disabled:
  assumes "\<not> m_enable pb"
  shows "step w c (pb, io) = (Returned, pb\<lparr>m_do_cleanup := m_do_cleanup pb \<and> c \<noteq> Done\<rparr>, io)"
  using assms by (cases c) (simp_all add: update_def file_done_def done_bar_def remove_def)

lemma run_disabled:
  assumes "\<not> m_enable pb"
  shows "run w cs (pb, io) =
         (Returned, pb\<lparr>m_do_cleanup := m_do_cleanup pb \<and> Done \<notin> set cs\<rparr>, io)"
  using assms
proof (induction cs arbitrary: pb)
  case Nil
  then show ?case by simp
next
  case (Cons c cs)
  have "\<not> m_enable (pb\<lparr>m_do_cleanup := m_do_cleanup pb \<and> c \<noteq> Done\<rparr>)"
    using Cons.prems by simp
  from Cons.IH [OF this] show ?case
    by (cases "c = Done") (simp_all add: step_disabled [OF Cons.prems])
qed

lemma destructor_disabled:
  assumes "\<not> m_enable pb"
  shows "destructor w (pb, io) = (Returned, pb\<lparr>m_do_cleanup := False\<rparr>, io)"
  using assms by (simp add: destructor_def done_bar_def)

lemma sized_ProgressBar: "sized (ProgressBar max_size enable)"
  by (auto simp: sized_def ProgressBar_def)

lemma step_sized:
  assumes "sized pb" and "step w c (pb, io) = (r, pb', io')"
  shows "sized pb' \<and> r \<noteq> DivByZero"
proof (cases "m_enable pb")
  case False
  with assms show ?thesis
    by (auto simp: step_disabled sized_def)
next
  case True
  with assms(1) have m: "m_max_size pb \<noteq> 0"
    by (simp add: sized_def)
  show ?thesis
  proof (cases c)
    case (Update n)
    with assms(2) True have d: "display w (pb\<lparr>m_current_size := n\<rparr>, io) = (r, pb', io')"
      by (simp add: update_def)
    from display_fields [OF d] display_not_DivByZero [of "pb\<lparr>m_current_size := n\<rparr>" w io] d m
    show ?thesis by (simp add: sized_def)
  next
    case (FileDone n)
    with assms(2) True have d: "display w (pb\<lparr>m_done_size := m_done_size pb + n, m_current_size := 0\<rparr>, io) = (r, pb', io')"
      by (simp add: file_done_def)
    from display_fields [OF d] display_not_DivByZero [of "pb\<lparr>m_done_size := m_done_size pb + n, m_current_size := 0\<rparr>" w io] d m
    show ?thesis by (simp add: sized_def)
  next
    case Done
    let ?q = "pb\<lparr>m_do_cleanup := False, m_done_size := m_max_size pb, m_current_size := 0\<rparr>"
    obtain r2 pb2 io2 where d: "display w (?q, io) = (r2, pb2, io2)"
      by (metis prod_cases3)
    from display_fields [OF d] display_not_DivByZero [of ?q w io] d m
    have f: "m_max_size pb2 = m_max_size pb" "m_enable pb2 = m_enable pb" "r2 \<noteq> DivByZero"
      by simp_all
    from assms(2) Done True d have "pb' = pb2 \<and> r \<noteq> DivByZero"
      using insert_all_not_DivByZero [of w "[[CHR 0x0A]]" io2] f(3)
      by (cases r2) (auto simp: done_bar_def split: prod.splits)
    with f m show ?thesis by (simp add: sized_def)
  next
    case Remove
    with assms(2) True m show ?thesis
      using insert_all_not_DivByZero [of w "[spc, ''         '' @ [CHR 0x0D]]" io]
      by (auto simp: remove_def sized_def split: prod.splits outcome.splits)
  qed
qed

lemma run_sized:
  assumes "sized pb" and "run w cs (pb, io) = (r, pb', io')"
  shows "sized pb' \<and> r \<noteq> DivByZero"
  using assms
proof (induction cs arbitrary: pb io)
  case Nil
  then show ?case by simp
next
  case (Cons c cs)
  obtain r1 pb1 io1 where s: "step w c (pb, io) = (r1, pb1, io1)"
    by (metis prod_cases3)
  from step_sized [OF Cons.prems(1) s] have z: "sized pb1" "r1 \<noteq> DivByZero"
    by simp_all
  show ?case
  proof (cases r1)
    case Returned
    with Cons.prems(2) s have "run w cs (pb1, io1) = (r, pb', io')"
      by simp
    from Cons.IH [OF z(1) this] show ?thesis .
  next
    case Thrown
    with Cons.prems(2) s z show ?thesis by auto
  next
    case DivByZero
    with z show ?thesis by simp
  qed
qed

lemma destructor_sized:
  assumes "sized pb"
  shows "fst (destructor w (pb, io)) \<noteq> DivByZero"
proof (cases "m_do_cleanup pb")
  case False
  then show ?thesis by (simp add: destructor_def)
next
  case True
  obtain r pb' io' where d: "step w Done (pb, io) = (r, pb', io')"
    by (metis prod_cases3)
  from step_sized [OF assms d] have "r \<noteq> DivByZero" by simp
  with d True show ?thesis
    by (cases r) (simp_all add: destructor_def)
qed

subsection \<open>The member functions on a stream that never fails\<close>

lemma update_cerr:
  assumes "m_enable pb" and "m_max_size pb \<noteq> 0"
  shows "update cerr x (pb, out) =
    (if m_prev_percent pb = percent_of (pb\<lparr>m_current_size := x\<rparr>)
     then (Returned, pb\<lparr>m_current_size := x\<rparr>, out)
     else (Returned,
           pb\<lparr>m_current_size := x, m_prev_percent := percent_of (pb\<lparr>m_current_size := x\<rparr>)\<rparr>,
           out @ concat (display_items (percent_of (pb\<lparr>m_current_size := x\<rparr>)))))"
  using assms by (simp add: update_def display_cerr)

lemma file_done_cerr:
  assumes "m_enable pb" and "m_max_size pb \<noteq> 0"
  shows "file_done cerr n (pb, out) =
    (if m_prev_percent pb =
        percent_of (pb\<lparr>m_done_size := m_done_size pb + n, m_current_size := 0\<rparr>)
     then (Returned, pb\<lparr>m_done_size := m_done_size pb + n, m_current_size := 0\<rparr>, out)
     else (Returned,
           pb\<lparr>m_done_size := m_done_size pb + n, m_current_size := 0,
              m_prev_percent :=
                percent_of (pb\<lparr>m_done_size := m_done_size pb + n, m_current_size := 0\<rparr>)\<rparr>,
           out @ concat (display_items
             (percent_of (pb\<lparr>m_done_size := m_done_size pb + n, m_current_size := 0\<rparr>)))))"
  using assms by (simp add: file_done_def display_cerr)

lemma done_bar_cerr:
  assumes "m_enable pb" and "m_max_size pb \<noteq> 0"
  shows "done_bar cerr (pb, out) =
    (if m_prev_percent pb =
        percent_of (pb\<lparr>m_do_cleanup := False, m_done_size := m_max_size pb, m_current_size := 0\<rparr>)
     then (Returned,
           pb\<lparr>m_do_cleanup := False, m_done_size := m_max_size pb, m_current_size := 0\<rparr>,
           out @ [CHR 0x0A])
     else (Returned,
           pb\<lparr>m_do_cleanup := False, m_done_size := m_max_size pb, m_current_size := 0,
              m_prev_percent :=
                percent_of (pb\<lparr>m_do_cleanup := False, m_done_size := m_max_size pb,
                              m_current_size := 0\<rparr>)\<rparr>,
           out @ concat (display_items
             (percent_of (pb\<lparr>m_do_cleanup := False, m_done_size := m_max_size pb,
                            m_current_size := 0\<rparr>))) @ [CHR 0x0A]))"
  using assms by (simp add: done_bar_def Let_def display_cerr insert_all_cerr del: insert_all.simps)

lemma remove_cerr:
  assumes "m_enable pb"
  shows "remove cerr (pb, out) =
    (Returned, pb\<lparr>m_prev_percent := 101\<rparr>, out @ spc @ ''         '' @ [CHR 0x0D])"
  using assms by (simp add: remove_def insert_all_cerr del: insert_all.simps)

subsection \<open>What a call changes\<close>

lemma step_fields:
  assumes "step w c (pb, io) = (r, pb', io')"
  shows "m_max_size pb' = m_max_size pb \<and> m_enable pb' = m_enable pb \<and>
         m_do_cleanup pb' = (m_do_cleanup pb \<and> c \<noteq> Done) \<and>
         m_done_size pb' =
           (if m_enable pb
            then (case c of FileDone n \<Rightarrow> m_done_size pb + n
                          | Done \<Rightarrow> m_max_size pb
                          | _ \<Rightarrow> m_done_size pb)
            else m_done_size pb)"
proof (cases "m_enable pb")
  case False
  with assms show ?thesis
    by (auto simp: step_disabled)
next
  case True
  show ?thesis
  proof (cases c)
    case (Update n)
    with assms True have d: "display w (pb\<lparr>m_current_size := n\<rparr>, io) = (r, pb', io')"
      by (simp add: update_def)
    from display_fields [OF d] Update True show ?thesis by simp
  next
    case (FileDone n)
    with assms True
    have d: "display w (pb\<lparr>m_done_size := m_done_size pb + n, m_current_size := 0\<rparr>, io) = (r, pb', io')"
      by (simp add: file_done_def)
    from display_fields [OF d] FileDone True show ?thesis by simp
  next
    case Done
    let ?q = "pb\<lparr>m_do_cleanup := False, m_done_size := m_max_size pb, m_current_size := 0\<rparr>"
    obtain r2 pb2 io2 where d: "display w (?q, io) = (r2, pb2, io2)"
      by (metis prod_cases3)
    from assms Done True d have "pb' = pb2"
      by (cases r2) (auto simp: done_bar_def split: prod.splits)
    with display_fields [OF d] Done True show ?thesis by simp
  next
    case Remove
    with assms True show ?thesis
      by (auto simp: remove_def split: prod.splits outcome.splits)
  qed
qed

lemma run_do_cleanup:
  assumes "\<not> m_do_cleanup pb" and "run w cs (pb, io) = (r, pb', io')"
  shows "\<not> m_do_cleanup pb'"
  using assms
proof (induction cs arbitrary: pb io)
  case Nil
  then show ?case by simp
next
  case (Cons c cs)
  obtain r1 pb1 io1 where s: "step w c (pb, io) = (r1, pb1, io1)"
    by (metis prod_cases3)
  from step_fields [OF s] Cons.prems(1) have z: "\<not> m_do_cleanup pb1"
    by simp
  show ?case
  proof (cases r1)
    case Returned
    with Cons.prems(2) s have "run w cs (pb1, io1) = (r, pb', io')"
      by simp
    from Cons.IH [OF z this] show ?thesis .
  next
    case Thrown
    with Cons.prems(2) s z show ?thesis by auto
  next
    case DivByZero
    with Cons.prems(2) s z show ?thesis by auto
  qed
qed

subsection \<open>Exceptions of the stream\<close>

lemma logged_apply:
  assumes "w x io = (t, io1)"
  shows "logged w x (io, l) = (t, io1, l @ [t])"
  using assms by (simp add: logged_def)

lemma insert_all_logged:
  assumes "insert_all (logged w) xs (io, l) = (r, io', l')" and "True \<notin> set l"
  shows "(r = Thrown) = (True \<in> set l') \<and> r \<noteq> DivByZero"
  using assms
proof (induction xs arbitrary: io l)
  case Nil
  then show ?case by auto
next
  case (Cons x xs)
  obtain t io1 where w: "w x io = (t, io1)"
    by (metis surj_pair)
  show ?case
  proof (cases t)
    case True
    with Cons.prems w show ?thesis
      by (auto simp: logged_apply [of w x io t io1, OF w])
  next
    case False
    with Cons.prems w have "insert_all (logged w) xs (io1, l @ [False]) = (r, io', l')"
      by (simp add: logged_apply [of w x io t io1, OF w])
    moreover from Cons.prems have "True \<notin> set (l @ [False])"
      by simp
    ultimately show ?thesis
      by (rule Cons.IH)
  qed
qed

lemma display_logged:
  assumes "display (logged w) (pb, io, l) = (r, pb', io', l')" and "True \<notin> set l"
  shows "(r = Thrown) = (True \<in> set l')"
proof (cases "m_max_size pb = 0 \<or> m_prev_percent pb = percent_of pb")
  case True
  with assms show ?thesis
    by (auto simp: display_def split: if_splits)
next
  case False
  obtain r1 io1 l1 where i: "insert_all (logged w) (display_items (percent_of pb)) (io, l) = (r1, io1, l1)"
    by (metis prod_cases3)
  with assms(1) False have "r = r1" "l' = l1"
    by (simp_all add: display_def)
  with insert_all_logged [OF i assms(2)] show ?thesis
    by simp
qed

lemma step_logged:
  assumes "step (logged w) c (pb, io, l) = (r, pb', io', l')" and "True \<notin> set l"
  shows "(r = Thrown) = (True \<in> set l')"
proof (cases "m_enable pb")
  case False
  with assms show ?thesis
    by (auto simp: step_disabled)
next
  case True
  show ?thesis
  proof (cases c)
    case (Update n)
    with assms(1) True
    have "display (logged w) (pb\<lparr>m_current_size := n\<rparr>, io, l) = (r, pb', io', l')"
      by (simp add: update_def)
    from display_logged [OF this assms(2)] show ?thesis .
  next
    case (FileDone n)
    with assms(1) True
    have "display (logged w)
            (pb\<lparr>m_done_size := m_done_size pb + n, m_current_size := 0\<rparr>, io, l) =
          (r, pb', io', l')"
      by (simp add: file_done_def)
    from display_logged [OF this assms(2)] show ?thesis .
  next
    case Done
    let ?q = "pb\<lparr>m_do_cleanup := False, m_done_size := m_max_size pb, m_current_size := 0\<rparr>"
    obtain r2 pb2 io2 l2 where d: "display (logged w) (?q, io, l) = (r2, pb2, io2, l2)"
      by (metis prod_cases4)
    note t = display_logged [OF d assms(2)]
    show ?thesis
    proof (cases r2)
      case Returned
      obtain r3 io3 l3 where i: "insert_all (logged w) [[CHR 0x0A]] (io2, l2) = (r3, io3, l3)"
        by (metis prod_cases3)
      from t Returned have "True \<notin> set l2"
        by simp
      from insert_all_logged [OF i this] have "(r3 = Thrown) = (True \<in> set l3)"
        by simp
      moreover from assms(1) Done True d Returned i have "r = r3" "l' = l3"
        by (simp_all add: done_bar_def del: insert_all.simps)
      ultimately show ?thesis by simp
    next
      case Thrown
      with assms(1) Done True d have "r = Thrown" "l' = l2"
        by (simp_all add: done_bar_def)
      with t Thrown show ?thesis by simp
    next
      case DivByZero
      with assms(1) Done True d have "r = DivByZero" "l' = l2"
        by (simp_all add: done_bar_def)
      with t DivByZero show ?thesis by simp
    qed
  next
    case Remove
    obtain r3 io3 l3
      where i: "insert_all (logged w) [spc, ''         '' @ [CHR 0x0D]] (io, l) = (r3, io3, l3)"
      by (metis prod_cases3)
    from assms(1) Remove True i have "r = r3" "l' = l3"
      by (cases r3; simp add: remove_def del: insert_all.simps)+
    with insert_all_logged [OF i assms(2)] show ?thesis
      by simp
  qed
qed


lemma run_keeps_cleanup:
  assumes "Done \<notin> set cs" and "m_do_cleanup pb" and "run w cs (pb, io) = (r, pb', io')"
  shows "m_do_cleanup pb'"
  using assms
proof (induction cs arbitrary: pb io)
  case Nil
  then show ?case by simp
next
  case (Cons c cs)
  obtain r1 pb1 io1 where s: "step w c (pb, io) = (r1, pb1, io1)"
    by (metis prod_cases3)
  from step_fields [OF s] Cons.prems(1,2) have z: "m_do_cleanup pb1"
    by auto
  show ?case
  proof (cases r1)
    case Returned
    with Cons.prems(3) s have "run w cs (pb1, io1) = (r, pb', io')"
      by simp
    with Cons.IH [of pb1 io1] Cons.prems(1) z show ?thesis by simp
  next
    case Thrown
    with Cons.prems(3) s z show ?thesis by auto
  next
    case DivByZero
    with Cons.prems(3) s z show ?thesis by auto
  qed
qed

subsection \<open>Rendering twice\<close>

lemma display_items_not_empty: "concat (display_items percent) \<noteq> []"
  by (simp add: display_items_text)

lemma percent_of_prev: "percent_of (pb\<lparr>m_prev_percent := p\<rparr>) = percent_of pb"
  by (simp add: percent_of_def)

lemma display_Returned:
  assumes "display w (pb, io) = (Returned, pb', io')"
  shows "pb' = pb\<lparr>m_prev_percent := percent_of pb\<rparr> \<and> m_max_size pb \<noteq> 0"
  using assms by (auto simp: display_def Let_def split: if_splits prod.splits)

lemma display_again:
  assumes "display w (pb, io) = (Returned, pb', io')"
  shows "display w (pb', io') = (Returned, pb', io')"
  using display_Returned [OF assms] by (simp add: display_def percent_of_prev)

lemma update_again:
  assumes "update w x (pb, io) = (Returned, pb', io')"
  shows "update w x (pb', io') = (Returned, pb', io')"
proof (cases "m_enable pb")
  case False
  with assms show ?thesis
    by (auto simp: update_def)
next
  case True
  with assms have d: "display w (pb\<lparr>m_current_size := x\<rparr>, io) = (Returned, pb', io')"
    by (simp add: update_def)
  from display_Returned [OF d] True have "m_enable pb'" "pb'\<lparr>m_current_size := x\<rparr> = pb'"
    by simp_all
  with display_again [OF d] show ?thesis
    by (simp add: update_def)
qed

subsection \<open>Percentages in range, and the full bar\<close>

lemma percent_le_100:
  assumes "m_max_size pb \<noteq> 0"
    and "unat (m_done_size pb) + unat (m_current_size pb) \<le> unat (m_max_size pb)"
    and "100 * unat (m_max_size pb) < 2 ^ 64"
  shows "percent_of pb \<le> 100"
proof -
  let ?n = "unat (m_done_size pb) + unat (m_current_size pb)"
  let ?m = "unat (m_max_size pb)"
  from assms(1) have m: "0 < ?m"
    by (simp add: unat_gt_0)
  from assms(2,3) have "100 * ?n < 2 ^ 64"
    by simp
  then have p: "unat (percent_of pb) = 100 * ?n div ?m"
    by (rule percent_of_nat)
  from assms(2) have "100 * ?n \<le> 100 * ?m"
    by simp
  then have "100 * ?n div ?m \<le> 100 * ?m div ?m"
    by (rule div_le_mono)
  with m p have "unat (percent_of pb) \<le> 100"
    by simp
  then show ?thesis
    by (simp add: word_le_nat_alt)
qed

lemma fill_count_100: "fill_count 100 = 70"
  by (simp add: fill_count_def round53_def length_div_100_def rne_div_def bitlen.simps)

lemma dec_100: "dec 100 = ''100''"
  by (simp add: dec_def dec_nat.simps digit_char_def)

lemma display_items_100:
  "concat (display_items 100) =
     ''[======================================================================] 100% '' @ [CHR 0x0D]"
  by (simp add: display_items_def fill_count_100 dec_100 length_bar_def bar_def)

section \<open>The claims\<close>


text \<open>
  Claim C1. A renderer constructed with \<open>max_size = 100\<close> and \<open>enable = true\<close>, whose
  first call is \<open>update(50)\<close>, writes one line: 35 fill glyphs, the boundary glyph, the
  blanks, and the percent field \<open>50\<close>. The fill count \<open>size_t(50 * (70 / 100.0))\<close> is 35.
\<close>

theorem update_50_of_100:
  "update cerr 50 (ProgressBar 100 True, []) =
     (Returned,
      \<lparr>m_max_size = 100, m_done_size = 0, m_current_size = 50, m_prev_percent = 50,
       m_enable = True, m_do_cleanup = True\<rparr>,
      ''[===================================>                                  ]  50% '' @ [CHR 0x0D])
   \<and> fill_count 50 = 35
   \<and> count_list (snd (snd (update cerr 50 (ProgressBar 100 True, [])))) (CHR ''='') = 35"
proof -
  have p: "percent_of (ProgressBar 100 True\<lparr>m_current_size := 50\<rparr>) = 50"
    by (simp add: percent_of_def ProgressBar_def)
  have u: "update cerr 50 (ProgressBar 100 True, []) =
     (Returned,
      \<lparr>m_max_size = 100, m_done_size = 0, m_current_size = 50, m_prev_percent = 50,
       m_enable = True, m_do_cleanup = True\<rparr>,
      ''[===================================>                                  ]  50% '' @ [CHR 0x0D])"
    by (simp add: update_def ProgressBar_def display_cerr percent_of_def display_items_50)
  show ?thesis
    by (simp only: u fill_count_50) simp
qed

text \<open>
  Claim C2, as amended. In every render the bar body between \<open>[\<close> and \<open>]\<close> is, for a
  fill count \<open>num < 70\<close>, exactly \<open>num\<close> fill glyphs, one boundary glyph \<open>>\<close> and
  \<open>69 - num\<close> blanks (the string \<open>spc\<close> has 69 characters, so the body is always 70
  cells wide); for \<open>num \<ge> 70\<close> it is the 70 fill glyphs alone.
\<close>

theorem bar_body:
  assumes "m_max_size pb \<noteq> 0" and "m_prev_percent pb \<noteq> percent_of pb"
  shows "display cerr (pb, out) =
     (Returned, pb\<lparr>m_prev_percent := percent_of pb\<rparr>,
      out @ ''['' @
      (if unat (fill_count (percent_of pb)) < 70
       then replicate (unat (fill_count (percent_of pb))) (CHR ''='') @ ''>'' @
            replicate (69 - unat (fill_count (percent_of pb))) (CHR '' '')
       else replicate 70 (CHR ''='')) @
      ''] '' @ (if percent_of pb < 10 then '' '' else []) @
      (if percent_of pb < 100 then '' '' else []) @
      dec (percent_of pb) @ ''% '' @ [CHR 0x0D])"
  using assms by (simp add: display_cerr display_items_text)

text \<open>The theorem at the 50% render of a renderer of size 100.\<close>

theorem bar_body_witness:
  "display cerr (ProgressBar 100 True\<lparr>m_current_size := 50\<rparr>, []) =
     (Returned, ProgressBar 100 True\<lparr>m_current_size := 50, m_prev_percent := 50\<rparr>,
      ''['' @ replicate 35 (CHR ''='') @ ''>'' @ replicate 34 (CHR '' '') @ '']  50% '' @ [CHR 0x0D])"
proof -
  have p: "percent_of (ProgressBar 100 True\<lparr>m_current_size := 50\<rparr>) = 50"
    by (simp add: percent_of_def ProgressBar_def)
  have m: "m_max_size (ProgressBar 100 True\<lparr>m_current_size := 50\<rparr>) \<noteq> 0"
    by (simp add: ProgressBar_def)
  have q: "m_prev_percent (ProgressBar 100 True\<lparr>m_current_size := 50\<rparr>) \<noteq>
           percent_of (ProgressBar 100 True\<lparr>m_current_size := 50\<rparr>)"
    by (simp add: p) (simp add: ProgressBar_def)
  show ?thesis
    using bar_body [OF m q, of "[]"] by (simp add: p fill_count_50 dec_50)
qed

text \<open>
  Claim C2 as stated asks for \<open>70 - num\<close> blanks. At 50%, where \<open>num = 35\<close>, the line
  written is not the one with 35 blanks.
\<close>

theorem bar_body_blanks_counterexample:
  "fill_count 50 < 70 \<and>
   snd (snd (update cerr 50 (ProgressBar 100 True, []))) \<noteq>
     ''['' @ replicate (unat (fill_count 50)) (CHR ''='') @ ''>'' @
     replicate (70 - unat (fill_count 50)) (CHR '' '') @ '']  50% '' @ [CHR 0x0D]"
proof -
  have "length (snd (snd (update cerr 50 (ProgressBar 100 True, [])))) = 79"
    by (simp add: update_def ProgressBar_def display_cerr percent_of_def display_items_50)
  moreover have "length (''['' @ replicate (unat (fill_count 50)) (CHR ''='') @ ''>'' @
     replicate (70 - unat (fill_count 50)) (CHR '' '') @ '']  50% '' @ [CHR 0x0D]) = 80"
    by (simp add: fill_count_50)
  ultimately show ?thesis
    by (auto simp: fill_count_50)
qed

text \<open>
  Claim C3, as amended. On an enabled renderer whose \<open>100 * max_size\<close> fits in
  \<open>size_t\<close>, \<open>done\<close> sets \<open>m_done_size\<close> to \<open>m_max_size\<close> and \<open>m_current_size\<close> to 0,
  writes the 100% line unless the line last rendered was already the 100% line, and then
  writes exactly one newline. A second \<open>done\<close> right after it writes the newline only.
\<close>

theorem done_renders:
  assumes "m_enable pb" and "m_max_size pb \<noteq> 0" and "100 * unat (m_max_size pb) < 2 ^ 64"
  shows "done_bar cerr (pb, out) =
           (Returned,
            pb\<lparr>m_do_cleanup := False, m_done_size := m_max_size pb, m_current_size := 0,
               m_prev_percent := 100\<rparr>,
            out @
            (if m_prev_percent pb = 100 then []
             else ''[======================================================================] 100% '' @
                  [CHR 0x0D]) @
            [CHR 0x0A]) \<and>
         done_bar cerr (snd (done_bar cerr (pb, out))) =
           (Returned, fst (snd (done_bar cerr (pb, out))),
            snd (snd (done_bar cerr (pb, out))) @ [CHR 0x0A])"
proof -
  let ?q = "pb\<lparr>m_do_cleanup := False, m_done_size := m_max_size pb, m_current_size := 0\<rparr>"
  have "unat (percent_of ?q) = 100 * unat (m_max_size pb) div unat (m_max_size pb)"
    using assms(3) percent_of_nat [of ?q] by simp
  moreover from assms(2) have "0 < unat (m_max_size pb)"
    by (simp add: unat_gt_0)
  ultimately have "unat (percent_of ?q) = unat (100 :: size_t)"
    by simp
  then have p: "percent_of ?q = 100"
    by (simp only: word_unat_eq_iff)
  have a: "done_bar cerr (pb, out) =
           (Returned, ?q\<lparr>m_prev_percent := 100\<rparr>,
            out @
            (if m_prev_percent pb = 100 then []
             else ''[======================================================================] 100% '' @
                  [CHR 0x0D]) @
            [CHR 0x0A])" for out
    using assms(1,2) by (simp add: done_bar_cerr p display_items_100)
  have "percent_of (?q\<lparr>m_prev_percent := 100, m_do_cleanup := False,
                     m_done_size := m_max_size pb, m_current_size := 0\<rparr>) = 100"
    using p by (simp add: percent_of_def)
  then have "done_bar cerr (?q\<lparr>m_prev_percent := 100\<rparr>, out') =
             (Returned, ?q\<lparr>m_prev_percent := 100\<rparr>, out' @ [CHR 0x0A])" for out'
    using assms(1,2) by (simp add: done_bar_cerr)
  with a show ?thesis
    by simp
qed

text \<open>The theorem at a new renderer of size 100.\<close>

theorem done_renders_witness:
  "done_bar cerr (ProgressBar 100 True, []) =
     (Returned,
      \<lparr>m_max_size = 100, m_done_size = 100, m_current_size = 0, m_prev_percent = 100,
       m_enable = True, m_do_cleanup = False\<rparr>,
      ''[======================================================================] 100% '' @
      [CHR 0x0D, CHR 0x0A])"
proof -
  have e: "m_enable (ProgressBar 100 True)" and m: "m_max_size (ProgressBar 100 True) \<noteq> 0"
    and n: "100 * unat (m_max_size (ProgressBar 100 True)) < 2 ^ 64"
    by (simp_all add: ProgressBar_def)
  from done_renders [OF e m n, of "[]"] show ?thesis
    by (simp add: ProgressBar_def)
qed

text \<open>
  Claim C3 as stated has the second of two consecutive \<open>done\<close> calls render the 100% bar
  again. On a new renderer of size 100 the second call adds one newline and nothing else.
\<close>

theorem done_twice_counterexample:
  "run cerr [Done] (ProgressBar 100 True, []) =
     (Returned,
      \<lparr>m_max_size = 100, m_done_size = 100, m_current_size = 0, m_prev_percent = 100,
       m_enable = True, m_do_cleanup = False\<rparr>,
      ''[======================================================================] 100% '' @
      [CHR 0x0D, CHR 0x0A]) \<and>
   run cerr [Done, Done] (ProgressBar 100 True, []) =
     (Returned,
      \<lparr>m_max_size = 100, m_done_size = 100, m_current_size = 0, m_prev_percent = 100,
       m_enable = True, m_do_cleanup = False\<rparr>,
      ''[======================================================================] 100% '' @
      [CHR 0x0D, CHR 0x0A, CHR 0x0A])"
  by (simp add: ProgressBar_def done_bar_cerr percent_of_def display_items_100)

text \<open>
  Claim C4, as amended. \<open>m_done_size\<close> starts at 0. \<open>update\<close> and \<open>remove\<close> never change
  it, and on a disabled renderer no call does. On an enabled renderer \<open>file_done(n)\<close>
  adds \<open>n\<close> modulo \<open>2 ^ 64\<close> and \<open>done\<close> sets it to \<open>m_max_size\<close>. A call does not
  decrease it when the addition of \<open>file_done\<close> does not overflow and \<open>done\<close> finds it
  at most \<open>m_max_size\<close>.
\<close>

theorem done_size_changes:
  "m_done_size (ProgressBar max_size enable) = 0 \<and>
   m_done_size (fst (snd (step w c (pb, io)))) =
     (if m_enable pb
      then (case c of FileDone n \<Rightarrow> m_done_size pb + n
                    | Done \<Rightarrow> m_max_size pb
                    | _ \<Rightarrow> m_done_size pb)
      else m_done_size pb) \<and>
   ((\<forall>n. c = FileDone n \<longrightarrow> unat (m_done_size pb) + unat n < 2 ^ 64) \<and>
    (c = Done \<longrightarrow> m_done_size pb \<le> m_max_size pb) \<longrightarrow>
    m_done_size pb \<le> m_done_size (fst (snd (step w c (pb, io)))))"
proof -
  obtain r pb' io' where s: "step w c (pb, io) = (r, pb', io')"
    by (metis prod_cases3)
  note f = step_fields [OF s]
  have "m_done_size pb \<le> m_done_size pb'"
    if "\<forall>n. c = FileDone n \<longrightarrow> unat (m_done_size pb) + unat n < 2 ^ 64"
      and "c = Done \<longrightarrow> m_done_size pb \<le> m_max_size pb"
  proof (cases c)
    case (FileDone n)
    with that have "unat (m_done_size pb) + unat n < 2 ^ 64" by simp
    then have "unat (m_done_size pb + n) = unat (m_done_size pb) + unat n"
      by (simp add: unat_add_lem [THEN iffD1])
    then have "m_done_size pb \<le> m_done_size pb + n"
      by (simp add: word_le_nat_alt)
    with f FileDone show ?thesis by simp
  qed (use f that in auto)
  with f s show ?thesis
    by (simp add: ProgressBar_def)
qed

text \<open>The theorem at \<open>file_done(30)\<close> on a new renderer of size 100.\<close>

theorem done_size_changes_witness:
  "m_done_size (fst (snd (step cerr (FileDone 30) (ProgressBar 100 True, [])))) = 30 \<and>
   m_done_size (ProgressBar 100 True) \<le>
     m_done_size (fst (snd (step cerr (FileDone 30) (ProgressBar 100 True, []))))"
  using done_size_changes [of 100 True cerr "FileDone 30" "ProgressBar 100 True" "[]"]
  by (simp add: ProgressBar_def)

text \<open>
  Claim C4 as stated says that only \<open>file_done\<close> changes \<open>m_done_size\<close> and that it
  never decreases. \<open>done\<close> on a new renderer of size 100 changes it from 0 to 100, and
  after \<open>file_done(200)\<close> it lowers it from 200 to 100.
\<close>

theorem done_size_counterexample:
  "m_done_size (ProgressBar 100 True) = 0 \<and>
   m_done_size (fst (snd (run cerr [Done] (ProgressBar 100 True, [])))) = 100 \<and>
   m_done_size (fst (snd (run cerr [FileDone 200] (ProgressBar 100 True, [])))) = 200 \<and>
   m_done_size (fst (snd (run cerr [FileDone 200, Done] (ProgressBar 100 True, [])))) = 100"
  by (simp add: ProgressBar_def file_done_cerr done_bar_cerr percent_of_def)

text \<open>
  Claim C5. A renderer constructed with \<open>enable = false\<close> or with \<open>max_size = 0\<close> is
  disabled: every sequence of \<open>update\<close>, \<open>file_done\<close>, \<open>done\<close> and \<open>remove\<close> calls
  returns with the stream untouched, whatever the stream would do, and so does the
  destructor. No run from any constructed renderer ever reaches the division with a zero
  \<open>max_size\<close>.
\<close>

theorem disabled_no_output:
  "(\<not> enable \<or> max_size = 0 \<longrightarrow>
      run w cs (ProgressBar max_size enable, io) =
        (Returned, (ProgressBar max_size enable)\<lparr>m_do_cleanup := Done \<notin> set cs\<rparr>, io) \<and>
      destructor w ((ProgressBar max_size enable)\<lparr>m_do_cleanup := Done \<notin> set cs\<rparr>, io) =
        (Returned, (ProgressBar max_size enable)\<lparr>m_do_cleanup := False\<rparr>, io)) \<and>
   fst (run w cs (ProgressBar max_size enable, io)) \<noteq> DivByZero \<and>
   fst (destructor w (snd (run w cs (ProgressBar max_size enable, io)))) \<noteq> DivByZero"
proof -
  let ?pb = "ProgressBar max_size enable"
  have a: "run w cs (?pb, io) = (Returned, ?pb\<lparr>m_do_cleanup := Done \<notin> set cs\<rparr>, io) \<and>
      destructor w (?pb\<lparr>m_do_cleanup := Done \<notin> set cs\<rparr>, io) =
        (Returned, ?pb\<lparr>m_do_cleanup := False\<rparr>, io)"
    if "\<not> enable \<or> max_size = 0"
  proof -
    from that have e: "\<not> m_enable ?pb"
      by (auto simp: ProgressBar_def)
    have c: "m_do_cleanup ?pb"
      by (simp add: ProgressBar_def)
    from e have "\<not> m_enable (?pb\<lparr>m_do_cleanup := Done \<notin> set cs\<rparr>)"
      by simp
    from run_disabled [OF e, of w cs io] destructor_disabled [OF this, of w io] c
    show ?thesis by simp
  qed
  obtain r pb' io' where r: "run w cs (?pb, io) = (r, pb', io')"
    by (metis prod_cases3)
  from run_sized [OF sized_ProgressBar r] have z: "sized pb'" "r \<noteq> DivByZero"
    by simp_all
  from destructor_sized [OF z(1), of w io'] r z(2) a show ?thesis
    by simp
qed

text \<open>The theorem at a renderer of size 0 on a failing stream, and at a disabled one.\<close>

theorem disabled_no_output_witness:
  "run cerr_failing [Update 5, FileDone 5, Remove, Done] (ProgressBar 0 True, []) =
     (Returned, (ProgressBar 0 True)\<lparr>m_do_cleanup := False\<rparr>, []) \<and>
   run cerr [Update 5, Remove] (ProgressBar 100 False, []) = (Returned, ProgressBar 100 False, []) \<and>
   destructor cerr (ProgressBar 100 False, []) =
     (Returned, (ProgressBar 100 False)\<lparr>m_do_cleanup := False\<rparr>, [])"
  using disabled_no_output [of True 0 cerr_failing "[Update 5, FileDone 5, Remove, Done]" "[]"]
    disabled_no_output [of False 100 cerr "[Update 5, Remove]" "[]"]
  by (simp add: ProgressBar_def)

text \<open>
  Claim C6. On an enabled renderer, \<open>update(x)\<close> writes nothing exactly when the
  percentage it computes equals \<open>m_prev_percent\<close>; so a first call that renders produces
  output, and a second call with the same \<open>x\<close> right after it changes neither the state
  nor the stream. The second call is silent on every stream on which the first returned.
\<close>

theorem update_twice:
  assumes "m_enable pb" and "m_max_size pb \<noteq> 0"
  shows "(snd (snd (update cerr x (pb, out))) = out) =
           (m_prev_percent pb = percent_of (pb\<lparr>m_current_size := x\<rparr>)) \<and>
         update cerr x (snd (update cerr x (pb, out))) = (Returned, snd (update cerr x (pb, out))) \<and>
         (update w x (pb, io) = (Returned, pb', io') \<longrightarrow>
            update w x (pb', io') = (Returned, pb', io'))"
proof -
  have a: "(snd (snd (update cerr x (pb, out))) = out) =
           (m_prev_percent pb = percent_of (pb\<lparr>m_current_size := x\<rparr>))"
    using assms display_items_not_empty [of "percent_of (pb\<lparr>m_current_size := x\<rparr>)"]
    by (simp add: update_cerr)
  obtain pb2 out2 where c: "update cerr x (pb, out) = (Returned, pb2, out2)"
    using assms
    by (cases "m_prev_percent pb = percent_of (pb\<lparr>m_current_size := x\<rparr>)")
      (simp_all add: update_cerr)
  from update_again [OF c] c a update_again [of w x pb io pb' io'] show ?thesis
    by simp
qed

text \<open>The theorem at \<open>update(50)\<close> twice on a new renderer of size 100.\<close>

theorem update_twice_witness:
  "snd (snd (update cerr 50 (ProgressBar 100 True, []))) \<noteq> [] \<and>
   update cerr 50 (snd (update cerr 50 (ProgressBar 100 True, []))) =
     (Returned, snd (update cerr 50 (ProgressBar 100 True, [])))"
proof -
  have e: "m_enable (ProgressBar 100 True)" and m: "m_max_size (ProgressBar 100 True) \<noteq> 0"
    by (simp_all add: ProgressBar_def)
  have p: "percent_of (ProgressBar 100 True\<lparr>m_current_size := 50\<rparr>) = 50"
    by (simp add: percent_of_def ProgressBar_def)
  have q: "m_prev_percent (ProgressBar 100 True) = 101"
    by (simp add: ProgressBar_def)
  from update_twice [OF e m, where x = 50 and out = "[]" and w = cerr and io = "[]"
      and pb' = "ProgressBar 100 True" and io' = "[]"]
  show ?thesis
    by (simp add: p q)
qed

text \<open>
  Claim C7, as amended. On an enabled renderer, \<open>remove\<close> followed by \<open>update(x)\<close>
  writes the blanks and then the whole line for the percentage of \<open>x\<close>, whatever was
  rendered before, provided that percentage is not 101, the value \<open>remove\<close> stores in
  \<open>m_prev_percent\<close>. It is at most 100, hence not 101, whenever
  \<open>done_size + x \<le> max_size\<close> and \<open>100 * max_size\<close> fits in \<open>size_t\<close>.
\<close>

theorem remove_then_update:
  assumes "m_enable pb" and "m_max_size pb \<noteq> 0"
    and "percent_of (pb\<lparr>m_current_size := x\<rparr>) \<noteq> 101"
  shows "run cerr [Remove, Update x] (pb, out) =
           (Returned,
            pb\<lparr>m_current_size := x, m_prev_percent := percent_of (pb\<lparr>m_current_size := x\<rparr>)\<rparr>,
            out @ spc @ ''         '' @ [CHR 0x0D] @
            concat (display_items (percent_of (pb\<lparr>m_current_size := x\<rparr>)))) \<and>
         concat (display_items (percent_of (pb\<lparr>m_current_size := x\<rparr>))) \<noteq> [] \<and>
         (unat (m_done_size pb) + unat x \<le> unat (m_max_size pb) \<and>
          100 * unat (m_max_size pb) < 2 ^ 64 \<longrightarrow>
            percent_of (pb\<lparr>m_current_size := x\<rparr>) \<le> 100)"
proof -
  let ?p = "percent_of (pb\<lparr>m_current_size := x\<rparr>)"
  have r: "remove cerr (pb, out) =
           (Returned, pb\<lparr>m_prev_percent := 101\<rparr>, out @ spc @ ''         '' @ [CHR 0x0D])"
    using assms(1) by (rule remove_cerr)
  have q: "percent_of (pb\<lparr>m_prev_percent := 101, m_current_size := x\<rparr>) = ?p"
    by (simp add: percent_of_def)
  have "update cerr x (pb\<lparr>m_prev_percent := 101\<rparr>, out @ spc @ ''         '' @ [CHR 0x0D]) =
          (Returned, pb\<lparr>m_current_size := x, m_prev_percent := ?p\<rparr>,
           out @ spc @ ''         '' @ [CHR 0x0D] @ concat (display_items ?p))"
    using assms by (simp add: update_cerr q)
  with r have a: "run cerr [Remove, Update x] (pb, out) =
          (Returned, pb\<lparr>m_current_size := x, m_prev_percent := ?p\<rparr>,
           out @ spc @ ''         '' @ [CHR 0x0D] @ concat (display_items ?p))"
    by simp
  have b: "?p \<le> 100"
    if "unat (m_done_size pb) + unat x \<le> unat (m_max_size pb)"
      and "100 * unat (m_max_size pb) < 2 ^ 64"
    using that assms(2) percent_le_100 [of "pb\<lparr>m_current_size := x\<rparr>"] by simp
  from a b display_items_not_empty [of ?p] show ?thesis
    by blast
qed

text \<open>The theorem at a renderer of size 100 that shows 50%: 50% is written again.\<close>

theorem remove_then_update_witness:
  "run cerr [Remove, Update 50]
     (\<lparr>m_max_size = 100, m_done_size = 0, m_current_size = 50, m_prev_percent = 50,
       m_enable = True, m_do_cleanup = True\<rparr>, []) =
   (Returned,
    \<lparr>m_max_size = 100, m_done_size = 0, m_current_size = 50, m_prev_percent = 50,
     m_enable = True, m_do_cleanup = True\<rparr>,
    spc @ ''         '' @ [CHR 0x0D] @
    ''[===================================>                                  ]  50% '' @ [CHR 0x0D])"
proof -
  let ?pb = "\<lparr>m_max_size = 100, m_done_size = 0, m_current_size = 50, m_prev_percent = 50,
       m_enable = True, m_do_cleanup = True\<rparr>"
  have e: "m_enable ?pb" and m: "m_max_size ?pb \<noteq> 0"
    by simp_all
  have p: "percent_of (?pb\<lparr>m_current_size := 50\<rparr>) = 50"
    by (simp add: percent_of_def)
  then have n: "percent_of (?pb\<lparr>m_current_size := 50\<rparr>) \<noteq> 101"
    by simp
  from remove_then_update [OF e m n, of "[]"]
  have "run cerr [Remove, Update 50] (?pb, []) =
          (Returned,
           ?pb\<lparr>m_current_size := 50, m_prev_percent := percent_of (?pb\<lparr>m_current_size := 50\<rparr>)\<rparr>,
           [] @ spc @ ''         '' @ [CHR 0x0D] @
           concat (display_items (percent_of (?pb\<lparr>m_current_size := 50\<rparr>))))"
    by (rule conjunct1)
  then show ?thesis
    unfolding p display_items_50 by (simp del: run.simps)
qed

text \<open>
  Claim C7 as stated covers every \<open>x\<close>. On a renderer of size 100, \<open>update(101)\<close>
  renders 101%; after \<open>remove\<close>, the same \<open>update(101)\<close> writes nothing, because the
  percentage equals the value that \<open>remove\<close> stored.
\<close>

theorem remove_then_update_counterexample:
  "run cerr [Update 50, Update 101] (ProgressBar 100 True, []) =
     (Returned,
      \<lparr>m_max_size = 100, m_done_size = 0, m_current_size = 101, m_prev_percent = 101,
       m_enable = True, m_do_cleanup = True\<rparr>,
      concat (display_items 50) @ concat (display_items 101)) \<and>
   run cerr [Update 50, Update 101, Remove] (ProgressBar 100 True, []) =
     (Returned,
      \<lparr>m_max_size = 100, m_done_size = 0, m_current_size = 101, m_prev_percent = 101,
       m_enable = True, m_do_cleanup = True\<rparr>,
      concat (display_items 50) @ concat (display_items 101) @ spc @ ''         '' @ [CHR 0x0D]) \<and>
   run cerr [Update 50, Update 101, Remove, Update 101] (ProgressBar 100 True, []) =
     (Returned,
      \<lparr>m_max_size = 100, m_done_size = 0, m_current_size = 101, m_prev_percent = 101,
       m_enable = True, m_do_cleanup = True\<rparr>,
      concat (display_items 50) @ concat (display_items 101) @ spc @ ''         '' @ [CHR 0x0D])"
  by (simp add: ProgressBar_def update_cerr remove_cerr percent_of_def)

text \<open>
  Claim C8, as amended. For sources of sizes \<open>A, B > 0\<close> with \<open>100 * (A + B) < 2 ^ 64\<close>
  and a new enabled renderer of size \<open>A + B\<close>: after \<open>update(A); file_done(A)\<close> the
  percentage shown is \<open>100 * A div (A + B)\<close> (its line was written by \<open>update(A)\<close>, and
  \<open>file_done(A)\<close> wrote nothing more), \<open>m_done_size = A\<close> and \<open>m_current_size = 0\<close>; after
  \<open>update(B)\<close> the 100% line has been written and the percentage shown is 100.
\<close>

theorem two_sources:
  assumes "0 < A" and "0 < B" and "100 * (unat A + unat B) < 2 ^ 64"
  shows "run cerr [Update A, FileDone A] (ProgressBar (A + B) True, []) =
           (Returned,
            \<lparr>m_max_size = A + B, m_done_size = A, m_current_size = 0,
             m_prev_percent = 100 * A div (A + B), m_enable = True, m_do_cleanup = True\<rparr>,
            concat (display_items (100 * A div (A + B)))) \<and>
         run cerr [Update A, FileDone A, Update B] (ProgressBar (A + B) True, []) =
           (Returned,
            \<lparr>m_max_size = A + B, m_done_size = A, m_current_size = B,
             m_prev_percent = 100, m_enable = True, m_do_cleanup = True\<rparr>,
            concat (display_items (100 * A div (A + B))) @ concat (display_items 100)) \<and>
         unat (100 * A div (A + B)) = 100 * unat A div (unat A + unat B)"
proof -
  let ?p = "100 * A div (A + B)"
  from assms(1,2) have a: "0 < unat A" and b: "0 < unat B"
    by (simp_all add: word_less_nat_alt)
  have uM: "unat (A + B) = unat A + unat B"
    by (rule unat_add_lem [THEN iffD1]) (use assms(3) in simp)
  with a have M: "A + B \<noteq> 0"
    by (metis add_is_0 less_numeral_extra(3) unat_0)
  have "unat (100 * A) = unat (100 :: size_t) * unat A"
    by (rule unat_mult_lem [THEN iffD1]) (use assms(3) in simp)
  then have up: "unat ?p = 100 * unat A div (unat A + unat B)"
    by (simp add: unat_div uM)
  from b have "100 * unat A < 100 * (unat A + unat B)"
    by simp
  then have "100 * unat A div (unat A + unat B) < 100"
    using a by (simp add: less_mult_imp_div_less)
  with up have lt: "unat ?p < 100"
    by simp
  then have n101: "?p \<noteq> 101" and n100: "?p \<noteq> 100"
    by auto
  have pos: "0 < unat (A + B)"
    using a uM by simp
  have "unat (100 * (A + B)) = unat (100 :: size_t) * unat (A + B)"
    by (rule unat_mult_lem [THEN iffD1]) (use assms(3) uM in simp)
  then have "unat (100 * (A + B) div (A + B)) = 100 * unat (A + B) div unat (A + B)"
    by (simp only: unat_div) simp
  also from pos have "\<dots> = 100"
    by simp
  finally have "unat (100 * (A + B) div (A + B)) = unat (100 :: size_t)"
    by simp
  then have full: "100 * (A + B) div (A + B) = 100"
    by (simp only: word_unat_eq_iff)
  let ?P0 = "\<lparr>m_max_size = A + B, m_done_size = 0, m_current_size = 0,
             m_prev_percent = 101, m_enable = True, m_do_cleanup = True\<rparr>"
  let ?P1 = "\<lparr>m_max_size = A + B, m_done_size = 0, m_current_size = A,
             m_prev_percent = ?p, m_enable = True, m_do_cleanup = True\<rparr>"
  let ?P2 = "\<lparr>m_max_size = A + B, m_done_size = A, m_current_size = 0,
             m_prev_percent = ?p, m_enable = True, m_do_cleanup = True\<rparr>"
  let ?P3 = "\<lparr>m_max_size = A + B, m_done_size = A, m_current_size = B,
             m_prev_percent = 100, m_enable = True, m_do_cleanup = True\<rparr>"
  from M have c: "ProgressBar (A + B) True = ?P0"
    by (simp add: ProgressBar_def word_greater_zero_iff)
  have s1: "update cerr A (?P0, []) = (Returned, ?P1, concat (display_items ?p))"
    using M n101 by (simp add: update_cerr percent_of_def del: distrib_left_numeral)
  have s2: "file_done cerr A (?P1, out) = (Returned, ?P2, out)" for out
    using M by (simp add: file_done_cerr percent_of_def del: distrib_left_numeral)
  have s3: "update cerr B (?P2, out) = (Returned, ?P3, out @ concat (display_items 100))" for out
    using M n100 full by (simp add: update_cerr percent_of_def del: distrib_left_numeral)
  from s1 s2 s3 up show ?thesis
    unfolding c by simp
qed

text \<open>The theorem at sources of sizes 30 and 70.\<close>

theorem two_sources_witness:
  "run cerr [Update 30, FileDone 30, Update 70] (ProgressBar 100 True, []) =
     (Returned,
      \<lparr>m_max_size = 100, m_done_size = 30, m_current_size = 70,
       m_prev_percent = 100, m_enable = True, m_do_cleanup = True\<rparr>,
      concat (display_items 30) @ concat (display_items 100)) \<and>
   m_prev_percent (fst (snd (run cerr [Update 30, FileDone 30] (ProgressBar 100 True, [])))) = 30"
proof -
  have a: "(0 :: size_t) < 30" and b: "(0 :: size_t) < 70"
    and n: "100 * (unat (30 :: size_t) + unat (70 :: size_t)) < 2 ^ 64"
    by simp_all
  have p: "(100 * 30 div (30 + 70) :: size_t) = 30"
    by simp
  have s: "(30 + 70 :: size_t) = 100"
    by simp
  from two_sources [OF a b n] show ?thesis
    unfolding p s by (simp del: run.simps)
qed

text \<open>
  Claim C8 as stated covers all sizes. For \<open>A = B = 2 ^ 62\<close> the product
  \<open>100 * A\<close> wraps to 0: the renderer shows 0% after \<open>file_done(A)\<close>, where the claim has
  50, and still 0% after \<open>update(B)\<close>, where the claim has 100.
\<close>

theorem two_sources_overflow_counterexample:
  "run cerr [Update (2 ^ 62), FileDone (2 ^ 62)] (ProgressBar (2 ^ 62 + 2 ^ 62) True, []) =
     (Returned,
      \<lparr>m_max_size = 2 ^ 63, m_done_size = 2 ^ 62, m_current_size = 0,
       m_prev_percent = 0, m_enable = True, m_do_cleanup = True\<rparr>,
      concat (display_items 0)) \<and>
   run cerr [Update (2 ^ 62), FileDone (2 ^ 62), Update (2 ^ 62)]
       (ProgressBar (2 ^ 62 + 2 ^ 62) True, []) =
     (Returned,
      \<lparr>m_max_size = 2 ^ 63, m_done_size = 2 ^ 62, m_current_size = 2 ^ 62,
       m_prev_percent = 0, m_enable = True, m_do_cleanup = True\<rparr>,
      concat (display_items 0)) \<and>
   100 * unat (2 ^ 62 :: size_t) div (unat (2 ^ 62 :: size_t) + unat (2 ^ 62 :: size_t)) = 50"
  by (simp add: ProgressBar_def update_cerr file_done_cerr percent_of_def)

text \<open>
  Claim C9. As long as \<open>m_do_cleanup\<close> is set, the destructor leaves the renderer and the
  stream exactly as one call of \<open>done\<close> would, whatever the stream does, and it never
  ends by an exception: where \<open>done\<close> would throw, the destructor returns. An explicit
  call, in contrast, ends by an exception exactly when one of the insertions it made threw.
  The flag is still set after every sequence of calls from the constructor in which
  \<open>done\<close> does not occur.
\<close>

theorem destructor_as_done:
  assumes "m_do_cleanup pb"
  shows "snd (destructor w (pb, io)) = snd (done_bar w (pb, io)) \<and>
         fst (destructor w (pb, io)) =
           (if fst (done_bar w (pb, io)) = Thrown then Returned else fst (done_bar w (pb, io))) \<and>
         fst (destructor w (pb, io)) \<noteq> Thrown \<and>
         (fst (step (logged w) c (pb, io, [])) = Thrown) =
           (True \<in> set (snd (snd (snd (step (logged w) c (pb, io, [])))))) \<and>
         (Done \<notin> set cs \<longrightarrow>
            m_do_cleanup (fst (snd (run w cs (ProgressBar max_size enable, io0)))))"
proof -
  obtain r pb' io' where d: "done_bar w (pb, io) = (r, pb', io')"
    by (metis prod_cases3)
  obtain r1 pb1 io1 l1 where s: "step (logged w) c (pb, io, []) = (r1, pb1, io1, l1)"
    by (metis prod_cases4)
  from step_logged [OF s] have t: "(r1 = Thrown) = (True \<in> set l1)"
    by simp
  obtain r2 pb2 io2 where r: "run w cs (ProgressBar max_size enable, io0) = (r2, pb2, io2)"
    by (metis prod_cases3)
  have n: "m_do_cleanup (ProgressBar max_size enable)"
    by (simp add: ProgressBar_def)
  have k: "m_do_cleanup pb2" if "Done \<notin> set cs"
    using that n r by (rule run_keeps_cleanup)
  from s d t r k assms show ?thesis
    by (cases r) (simp_all add: destructor_def)
qed

text \<open>
  The theorem on a stream whose every insertion throws: on a new renderer an explicit
  \<open>done\<close> throws, the destructor returns, and both leave the same state; after a
  \<open>remove\<close> that threw, the flag is still set.
\<close>

theorem destructor_as_done_witness:
  "done_bar cerr_failing (ProgressBar 100 True, []) =
     (Thrown,
      \<lparr>m_max_size = 100, m_done_size = 100, m_current_size = 0, m_prev_percent = 100,
       m_enable = True, m_do_cleanup = False\<rparr>, []) \<and>
   destructor cerr_failing (ProgressBar 100 True, []) =
     (Returned,
      \<lparr>m_max_size = 100, m_done_size = 100, m_current_size = 0, m_prev_percent = 100,
       m_enable = True, m_do_cleanup = False\<rparr>, []) \<and>
   m_do_cleanup (fst (snd (run cerr_failing [Remove] (ProgressBar 100 True, []))))"
proof -
  have c: "m_do_cleanup (ProgressBar 100 True)"
    by (simp add: ProgressBar_def)
  have d: "done_bar cerr_failing (ProgressBar 100 True, []) =
     (Thrown,
      \<lparr>m_max_size = 100, m_done_size = 100, m_current_size = 0, m_prev_percent = 100,
       m_enable = True, m_do_cleanup = False\<rparr>, [])"
    by (simp add: done_bar_def ProgressBar_def display_def percent_of_def display_items_def
        Let_def cerr_failing_def)
  from destructor_as_done [OF c, where w = cerr_failing and io = "[]" and c = Done
      and cs = "[Remove]" and max_size = 100 and enable = True and ?io0.0 = "[]"] d
  show ?thesis
    by (simp add: prod_eq_iff del: run.simps)
qed

text \<open>
  Claim C10. \<open>done\<close> clears \<open>m_do_cleanup\<close> in every case: on a disabled renderer too,
  and when the call ends by an exception. No call sets the flag again. So after a call of
  \<open>done\<close> and any further calls, the destructor returns at once: state and stream stay
  as they are.
\<close>

theorem done_clears_cleanup:
  "\<not> m_do_cleanup (fst (snd (done_bar w (pb, io)))) \<and>
   (\<not> m_do_cleanup pb \<longrightarrow> \<not> m_do_cleanup (fst (snd (step w c (pb, io))))) \<and>
   destructor w (snd (run w cs (snd (done_bar w (pb, io))))) =
     (Returned, snd (run w cs (snd (done_bar w (pb, io)))))"
proof -
  obtain r1 pb1 io1 where d: "step w Done (pb, io) = (r1, pb1, io1)"
    by (metis prod_cases3)
  from step_fields [OF d] have c1: "\<not> m_do_cleanup pb1"
    by simp
  obtain r2 pb2 io2 where r: "run w cs (pb1, io1) = (r2, pb2, io2)"
    by (metis prod_cases3)
  from run_do_cleanup [OF c1 r] have c2: "\<not> m_do_cleanup pb2" .
  obtain r3 pb3 io3 where s: "step w c (pb, io) = (r3, pb3, io3)"
    by (metis prod_cases3)
  from step_fields [OF s] have c3: "\<not> m_do_cleanup pb \<longrightarrow> \<not> m_do_cleanup pb3"
    by simp
  from d r s c1 c2 c3 show ?thesis
    by (simp add: destructor_def)
qed

text \<open>
  The theorem at a renderer of size 100 on which \<open>done\<close> was called, followed by a
  further \<open>update\<close>.
\<close>

theorem done_clears_cleanup_witness:
  "\<not> m_do_cleanup (fst (snd (step cerr (Update 5)
       (snd (done_bar cerr (ProgressBar 100 True, [])))))) \<and>
   destructor cerr (snd (run cerr [Update 5] (snd (done_bar cerr (ProgressBar 100 True, []))))) =
     (Returned, snd (run cerr [Update 5] (snd (done_bar cerr (ProgressBar 100 True, [])))))"
  using done_clears_cleanup [of cerr "ProgressBar 100 True" "[]" "Update 5" "[Update 5]"]
    done_clears_cleanup [of cerr "fst (snd (done_bar cerr (ProgressBar 100 True, [])))"
      "snd (snd (done_bar cerr (ProgressBar 100 True, [])))" "Update 5" "[]"]
  by (simp del: run.simps step.simps)

end
